theory Spec2Isabelle
  imports
    Complex_Main
    "HOL-Library.AList"
    "HOL-Library.Char_ord"
    "HOL-Library.List_Lexorder"
    "HOL-Library.Multiset"
begin

section \<open>Schema comparison of JSON corpora (scripts/compare\_schemas.py)\<close>

text \<open>
  The development embeds the schema-diffing core of \<^verbatim>\<open>scripts/compare_schemas.py\<close>:
  \<^verbatim>\<open>_json_type\<close>, \<^verbatim>\<open>walk_json\<close>, \<^verbatim>\<open>analyze_files\<close>, \<^verbatim>\<open>merge_schemas\<close> and
  \<^verbatim>\<open>summarize_schema\<close>.

  Modelling conventions.
  \<^item> A Python \<^verbatim>\<open>str\<close> is a \<^typ>\<open>string\<close>, read as its UTF-8 bytes. The order on
    \<^typ>\<open>string\<close> (bytes compared as numbers, lists lexicographically, a proper prefix
    first) is the order \<^verbatim>\<open>sorted\<close> uses on \<^verbatim>\<open>str\<close>, because UTF-8 keeps the order of
    code points.
  \<^item> A \<^verbatim>\<open>pathlib.Path\<close> is the \<^typ>\<open>string\<close> that \<^verbatim>\<open>str\<close> gives for it; \<^verbatim>\<open>Path(str(p)) == p\<close>
    holds for every path, so \<^verbatim>\<open>str\<close> and \<^verbatim>\<open>Path\<close> are the identity in the model.
  \<^item> A Python \<^verbatim>\<open>dict\<close> is an association list in insertion order; a Python \<^verbatim>\<open>set\<close>
    is a HOL set.
  \<^item> Reading and parsing a file (\<^verbatim>\<open>Path.read_text\<close>, \<^verbatim>\<open>json.loads\<close>) is library code:
    it is a parameter of the model that gives, for a path, the parsed value or the error
    raised. The interpreter's recursion limit and the console's encoding are outside
    the model.
\<close>

subsection \<open>JSON values as \<^verbatim>\<open>json.loads\<close> returns them\<close>

text \<open>
  \<^verbatim>\<open>json.loads\<close> returns \<^verbatim>\<open>None\<close>, a \<^verbatim>\<open>bool\<close>, an \<^verbatim>\<open>int\<close>, a \<^verbatim>\<open>float\<close>, a \<^verbatim>\<open>str\<close>,
  a \<^verbatim>\<open>list\<close> or a \<^verbatim>\<open>dict\<close> with \<^verbatim>\<open>str\<close> keys. The walker never looks at the payload
  of a number, so the payload of a \<^verbatim>\<open>float\<close> is a real number here.
\<close>

datatype json =
    JNull
  | JBool bool
  | JInt int
  | JFloat real
  | JStr string
  | JArr "json list"
  | JObj "(string \<times> json) list"

text \<open>
  The runtime type tests of \<^verbatim>\<open>_json_type\<close>. In Python \<^verbatim>\<open>bool\<close> is a subclass of
  \<^verbatim>\<open>int\<close>: \<^verbatim>\<open>isinstance(True, int)\<close> is true, and the model keeps that.
\<close>

fun is_None :: "json \<Rightarrow> bool" where
  "is_None JNull = True"
| "is_None _ = False"

fun isinstance_bool :: "json \<Rightarrow> bool" where
  "isinstance_bool (JBool _) = True"
| "isinstance_bool _ = False"

fun isinstance_int :: "json \<Rightarrow> bool" where
  "isinstance_int (JBool _) = True"
| "isinstance_int (JInt _) = True"
| "isinstance_int _ = False"

fun isinstance_float :: "json \<Rightarrow> bool" where
  "isinstance_float (JFloat _) = True"
| "isinstance_float _ = False"

fun isinstance_str :: "json \<Rightarrow> bool" where
  "isinstance_str (JStr _) = True"
| "isinstance_str _ = False"

fun isinstance_list :: "json \<Rightarrow> bool" where
  "isinstance_list (JArr _) = True"
| "isinstance_list _ = False"

fun isinstance_dict :: "json \<Rightarrow> bool" where
  "isinstance_dict (JObj _) = True"
| "isinstance_dict _ = False"

text \<open>\<^verbatim>\<open>type(v).__name__\<close>, the fall-through result of \<^verbatim>\<open>_json_type\<close>.\<close>

fun type_name :: "json \<Rightarrow> string" where
  "type_name JNull = ''NoneType''"
| "type_name (JBool _) = ''bool''"
| "type_name (JInt _) = ''int''"
| "type_name (JFloat _) = ''float''"
| "type_name (JStr _) = ''str''"
| "type_name (JArr _) = ''list''"
| "type_name (JObj _) = ''dict''"

text \<open>\<^verbatim>\<open>_json_type\<close>: the chain of tests in the order of the source.\<close>

definition json_type :: "json \<Rightarrow> string" where
  "json_type v =
     (if is_None v then ''null''
      else if isinstance_bool v then ''boolean''
      else if (isinstance_int v \<or> isinstance_float v) \<and> \<not> isinstance_bool v then ''number''
      else if isinstance_str v then ''string''
      else if isinstance_list v then ''array''
      else if isinstance_dict v then ''object''
      else type_name v)"

subsection \<open>The path walker\<close>

text \<open>
  \<^verbatim>\<open>base or "$"\<close>, \<^verbatim>\<open>f"{base}.{k}" if base else k\<close> and
  \<^verbatim>\<open>f"{base}[]" if base else "[]"\<close>: an empty string is false in Python.
\<close>

definition or_root :: "string \<Rightarrow> string" where
  "or_root base = (if base \<noteq> [] then base else ''$'')"

definition child_path :: "string \<Rightarrow> string \<Rightarrow> string" where
  "child_path base k = (if base \<noteq> [] then base @ ''.'' @ k else k)"

definition child_base :: "string \<Rightarrow> string" where
  "child_base base = (if base \<noteq> [] then base @ ''[]'' else ''[]'')"

text \<open>
  \<^verbatim>\<open>walk_json(obj, base)\<close>. The entry of the value itself comes first; a \<^verbatim>\<open>dict\<close> then
  extends the list with the walk of every item in order, a non-empty \<^verbatim>\<open>list\<close> with the
  walk of each element of \<^verbatim>\<open>obj[:5]\<close>.
\<close>

function (sequential, domintros) walk_json :: "json \<Rightarrow> string \<Rightarrow> (string \<times> string) list" where
  "walk_json (JObj kvs) base =
     (or_root base, json_type (JObj kvs))
       # concat (map (\<lambda>(k, v). walk_json v (child_path base k)) kvs)"
| "walk_json (JArr xs) base =
     (if xs \<noteq> []
      then (or_root base, json_type (JArr xs))
             # concat (map (\<lambda>el. walk_json el (child_base base)) (take 5 xs))
      else [(or_root base, json_type (JArr xs))])"
| "walk_json obj base = [(or_root base, json_type obj)]"
  by pat_completeness auto

termination
proof (relation "measure (\<lambda>(v, b). size v)")
  show "wf (measure (\<lambda>(v, b). size v))" by simp
next
  fix kvs :: "(string \<times> json) list" and base :: string and x k v
  assume "x \<in> set kvs" "(k, v) = x"
  then have "(k, v) \<in> set kvs" by simp
  then have "size v < Suc (size_list (size_prod (\<lambda>_. 0) size) kvs)"
    by (induction kvs) auto
  then show "((v, child_path base k), JObj kvs, base) \<in> measure (\<lambda>(v, b). size v)"
    by simp
next
  fix xs :: "json list" and base :: string and x
  assume "x \<in> set (take 5 xs)"
  then have "x \<in> set xs" by (rule in_set_takeD)
  then have "size x < Suc (size_list size xs)"
    by (induction xs) auto
  then show "((x, child_base base), JArr xs, base) \<in> measure (\<lambda>(v, b). size v)"
    by simp
qed

text \<open>The number of nodes of a JSON value: the value itself and all nodes below it.\<close>

fun json_nodes :: "json \<Rightarrow> nat" where
  "json_nodes (JObj kvs) = Suc (sum_list (map (\<lambda>(k, v). json_nodes v) kvs))"
| "json_nodes (JArr xs) = Suc (sum_list (map json_nodes xs))"
| "json_nodes _ = 1"

text \<open>The entries of a walk recorded at one path, and the set of types seen there.\<close>

definition entries_at :: "string \<Rightarrow> (string \<times> string) list \<Rightarrow> (string \<times> string) list" where
  "entries_at p pairs = filter (\<lambda>e. fst e = p) pairs"

definition types_at :: "string \<Rightarrow> (string \<times> string) list \<Rightarrow> string set" where
  "types_at p pairs = snd ` set (entries_at p pairs)"

subsection \<open>Per-file schemas\<close>

text \<open>
  \<^verbatim>\<open>FileSchema\<close>: the path of a file and its \<^verbatim>\<open>path_types\<close>, a \<^verbatim>\<open>dict\<close> from JSON
  path to the set of types seen there.
\<close>

record FileSchema =
  path :: string
  path_types :: "(string \<times> string set) list"

text \<open>
  What \<^verbatim>\<open>p.read_text\<close> followed by \<^verbatim>\<open>json.loads\<close> can raise. \<^verbatim>\<open>analyze_files\<close>
  catches every \<^verbatim>\<open>Exception\<close> of the two calls alike.
\<close>

datatype load_error = IOError | ParseError

text \<open>
  \<^verbatim>\<open>d[path].add(typ)\<close> on a \<^verbatim>\<open>defaultdict(set)\<close>: a missing key is created with the
  empty set, at the end of the \<^verbatim>\<open>dict\<close>; a present key keeps its place.
\<close>

definition get_types :: "(string \<times> string set) list \<Rightarrow> string \<Rightarrow> string set" where
  "get_types d p = (case map_of d p of None \<Rightarrow> {} | Some ts \<Rightarrow> ts)"

definition add_type ::
  "(string \<times> string set) list \<Rightarrow> string \<times> string \<Rightarrow> (string \<times> string set) list" where
  "add_type d e = (case e of (p, typ) \<Rightarrow> AList.update p (insert typ (get_types d p)) d)"

text \<open>
  The body of the loop of \<^verbatim>\<open>analyze_files\<close> for one file: \<^verbatim>\<open>load\<close> gives the parsed
  value or the exception raised. The walk starts at the path \<^verbatim>\<open>$\<close>.
\<close>

definition analyze_file :: "(string \<Rightarrow> load_error + json) \<Rightarrow> string \<Rightarrow> FileSchema" where
  "analyze_file load p =
     (case load p of
        Inl e \<Rightarrow> \<lparr>path = p, path_types = [(''$'', {''invalid_json''})]\<rparr>
      | Inr obj \<Rightarrow> \<lparr>path = p, path_types = foldl add_type [] (walk_json obj ''$'')\<rparr>)"

definition analyze_files ::
  "(string \<Rightarrow> load_error + json) \<Rightarrow> string list \<Rightarrow> FileSchema list" where
  "analyze_files load files = map (analyze_file load) files"

subsection \<open>The schema merger\<close>

text \<open>
  A record of \<^verbatim>\<open>result\<close> while the files are folded holds two sets; after finalization
  it holds three sorted lists.
\<close>

record path_sets =
  types_set :: "string set"
  files_set :: "string set"

record path_record =
  types :: "string list"
  files :: "string list"
  missing_in_files :: "string list"

text \<open>\<^verbatim>\<open>result.setdefault(path, {"types": set(), "files": set()})\<close>, the record read.\<close>

definition setdefault :: "(string \<times> path_sets) list \<Rightarrow> string \<Rightarrow> path_sets" where
  "setdefault result p =
     (case map_of result p of None \<Rightarrow> \<lparr>types_set = {}, files_set = {}\<rparr> | Some r \<Rightarrow> r)"

text \<open>The body of the inner loop of \<^verbatim>\<open>merge_schemas\<close>, for one item of \<^verbatim>\<open>s.path_types\<close>.\<close>

definition merge_entry ::
  "string \<Rightarrow> (string \<times> path_sets) list \<Rightarrow> string \<times> string set \<Rightarrow> (string \<times> path_sets) list" where
  "merge_entry file result e =
     (case e of (p, ts) \<Rightarrow>
        (let rec = setdefault result p
         in AList.update p
              \<lparr>types_set = types_set rec \<union> ts, files_set = insert file (files_set rec)\<rparr>
              result))"

text \<open>The body of the outer loop, for one \<^verbatim>\<open>FileSchema\<close>.\<close>

definition merge_file :: "(string \<times> path_sets) list \<Rightarrow> FileSchema \<Rightarrow> (string \<times> path_sets) list" where
  "merge_file result s = foldl (merge_entry (path s)) result (path_types s)"

text \<open>The body of the finalizing loop, for one record.\<close>

definition finalize :: "string set \<Rightarrow> path_sets \<Rightarrow> path_record" where
  "finalize all_files rec =
     (let ts = sorted_list_of_set (types_set rec);
          fs = sorted_list_of_set (files_set rec);
          missing = sorted_list_of_set (all_files - set fs)
      in \<lparr>types = ts, files = fs, missing_in_files = missing\<rparr>)"

definition merge_schemas :: "FileSchema list \<Rightarrow> (string \<times> path_record) list" where
  "merge_schemas schemas =
     (let all_files = set (map path schemas);
          result = foldl merge_file [] schemas
      in map (\<lambda>(p, rec). (p, finalize all_files rec)) result)"

subsection \<open>Summary statistics\<close>

record summary =
  total_paths :: nat
  paths_with_type_conflict_count :: nat
  paths_with_type_conflict :: "string list"
  paths_missing_count :: nat
  paths_missing_examples :: "string list"
  unique_paths_count :: nat
  unique_paths_examples :: "string list"

text \<open>
  The three list comprehensions of \<^verbatim>\<open>summarize_schema\<close>, before they are cut to 20
  examples. The first is the local \<^verbatim>\<open>paths_with_type_conflict\<close> of the source.
\<close>

definition type_conflict_list :: "(string \<times> path_record) list \<Rightarrow> string list" where
  "type_conflict_list merged = map fst (filter (\<lambda>(p, r). length (types r) > 1) merged)"

definition paths_missing :: "(string \<times> path_record) list \<Rightarrow> string list" where
  "paths_missing merged = map fst (filter (\<lambda>(p, r). missing_in_files r \<noteq> []) merged)"

definition unique_paths :: "(string \<times> path_record) list \<Rightarrow> string list" where
  "unique_paths merged = map fst (filter (\<lambda>(p, r). length (files r) = 1) merged)"

definition summarize_schema :: "(string \<times> path_record) list \<Rightarrow> summary" where
  "summarize_schema merged =
     \<lparr>total_paths = length merged,
      paths_with_type_conflict_count = length (type_conflict_list merged),
      paths_with_type_conflict = take 20 (type_conflict_list merged),
      paths_missing_count = length (paths_missing merged),
      paths_missing_examples = take 20 (paths_missing merged),
      unique_paths_count = length (unique_paths merged),
      unique_paths_examples = take 20 (unique_paths merged)\<rparr>"

subsection \<open>What a merge should hold, read off the corpus\<close>

text \<open>
  The types seen at a path anywhere in a corpus, the files that have the path, and the
  paths of the corpus. These are the sets the merged schema is compared with.
\<close>

definition p_types :: "FileSchema list \<Rightarrow> string \<Rightarrow> string set" where
  "p_types ss p = \<Union> {ts. \<exists>s \<in> set ss. (p, ts) \<in> set (path_types s)}"

definition p_files :: "FileSchema list \<Rightarrow> string \<Rightarrow> string set" where
  "p_files ss p = path ` {s \<in> set ss. p \<in> fst ` set (path_types s)}"

definition all_paths :: "FileSchema list \<Rightarrow> string set" where
  "all_paths ss = {p. \<exists>s \<in> set ss. p \<in> fst ` set (path_types s)}"

text \<open>A corpus of two files for the examples: one parses, every other path fails.\<close>

definition ex_load :: "string \<Rightarrow> load_error + json" where
  "ex_load p =
     (if p = ''ok.json'' then Inr (JObj [(''name'', JStr ''a'')]) else Inl ParseError)"

section \<open>Properties of the path walker\<close>

lemma json_type_simps [simp]:
  "json_type JNull = ''null''"
  "json_type (JBool b) = ''boolean''"
  "json_type (JInt i) = ''number''"
  "json_type (JFloat x) = ''number''"
  "json_type (JStr s) = ''string''"
  "json_type (JArr xs) = ''array''"
  "json_type (JObj kvs) = ''object''"
  by (simp_all add: json_type_def)

lemma or_root_simps [simp]:
  "or_root [] = ''$''"
  "or_root (c # cs) = c # cs"
  by (simp_all add: or_root_def)

lemma child_path_simps [simp]:
  "child_path [] k = k"
  "child_path (c # cs) k = (c # cs) @ ''.'' @ k"
  by (simp_all add: child_path_def)

lemma child_base_simps [simp]:
  "child_base [] = ''[]''"
  "child_base (c # cs) = (c # cs) @ ''[]''"
  by (simp_all add: child_base_def)

lemma walk_json_dom_all: "walk_json_dom (v, base)"
proof (induction v arbitrary: base)
  case (JObj kvs)
  show ?case
  proof (rule walk_json.domintros)
    fix k v
    assume "(k, v) \<in> set kvs"
    then have "(k, v) \<in> set kvs" "v \<in> Basic_BNFs.snds (k, v)" by auto
    then show "walk_json_dom (v, child_path base k)" by (rule JObj.IH)
  qed
next
  case (JArr xs)
  show ?case
    by (rule walk_json.domintros) (auto dest: in_set_takeD intro: JArr.IH)
qed (auto intro: walk_json.domintros)

lemma length_concat_le:
  "(\<And>x. x \<in> set xs \<Longrightarrow> length (f x) \<le> g x) \<Longrightarrow>
   length (concat (map f xs)) \<le> sum_list (map g xs)"
  by (induction xs) (auto simp: add_mono)

lemma sum_list_take_le: "sum_list (map g (take n xs)) \<le> sum_list (map (g :: 'a \<Rightarrow> nat) xs)"
proof -
  have "sum_list (map g xs) = sum_list (map g (take n xs)) + sum_list (map g (drop n xs))"
    by (metis append_take_drop_id map_append sum_list_append)
  then show ?thesis by simp
qed

lemma length_walk_json_le: "length (walk_json v base) \<le> json_nodes v"
proof (induction v base rule: walk_json.induct)
  case (1 kvs base)
  have "length (concat (map (\<lambda>(k, v). walk_json v (child_path base k)) kvs))
        \<le> sum_list (map (\<lambda>(k, v). json_nodes v) kvs)"
    by (rule length_concat_le) (use 1 in auto)
  then show ?case by simp
next
  case (2 xs base)
  show ?case
  proof (cases "xs = []")
    case True
    then show ?thesis by simp
  next
    case False
    have "length (concat (map (\<lambda>el. walk_json el (child_base base)) (take 5 xs)))
          \<le> sum_list (map json_nodes (take 5 xs))"
      by (rule length_concat_le) (use 2 False in auto)
    also have "\<dots> \<le> sum_list (map json_nodes xs)" by (rule sum_list_take_le)
    finally show ?thesis using False by simp
  qed
qed simp_all

lemma walk_json_take: "walk_json (JArr xs) base = walk_json (JArr (take 5 xs)) base"
  by (cases xs) simp_all

text \<open>
  C3, as the source has it. \<^verbatim>\<open>walk_json\<close> prefixes a mapping entry's key with the parent
  path and a dot whenever the parent path is a non-empty string, and passes the bare key
  only when the parent path is the empty string, the default of \<^verbatim>\<open>base\<close>, in which case
  the root itself is recorded as \<^verbatim>\<open>$\<close>. \<^verbatim>\<open>analyze_files\<close> starts the walk with the path
  \<^verbatim>\<open>$\<close>, which is not empty, so the children of the root of a corpus file get the paths
  \<^verbatim>\<open>$.key\<close>.
\<close>

theorem walk_json_mapping_child_paths:
  "walk_json (JObj kvs) (c # cs) =
     (c # cs, ''object'') # concat (map (\<lambda>(k, v). walk_json v ((c # cs) @ ''.'' @ k)) kvs)
   \<and> walk_json (JObj kvs) ''$'' =
     (''$'', ''object'') # concat (map (\<lambda>(k, v). walk_json v (''$.'' @ k)) kvs)
   \<and> walk_json (JObj kvs) '''' =
     (''$'', ''object'') # concat (map (\<lambda>(k, v). walk_json v k) kvs)"
  by simp

text \<open>
  C3, as the specification states it, fails: started at the path \<^verbatim>\<open>$\<close>, as the initial
  call of \<^verbatim>\<open>analyze_files\<close> does, the walk of \<^verbatim>\<open>{"k": null}\<close> records the child at
  \<^verbatim>\<open>$.k\<close>, and no entry has the bare path \<^verbatim>\<open>k\<close>.
\<close>

theorem walk_json_root_child_counterexample:
  "walk_json (JObj [(''k'', JNull)]) ''$'' = [(''$'', ''object''), (''$.k'', ''null'')]
   \<and> entries_at ''k'' (walk_json (JObj [(''k'', JNull)]) ''$'') = []"
  by (simp add: entries_at_def)

text \<open>
  C4. The walk of \<^verbatim>\<open>{"a": true, "b": 1, "c": 1.5, "d": null, "e": "x", "f": [], "g": {}}\<close>
  (with the walker's default base) records \<^verbatim>\<open>boolean, number, number, null, string,
  array, object\<close> at the paths \<^verbatim>\<open>a\<close> to \<^verbatim>\<open>g\<close>. No boolean is tagged \<^verbatim>\<open>number\<close>, although
  it passes the \<^verbatim>\<open>int\<close> test of the source, and every integer and every floating-point
  number is tagged \<^verbatim>\<open>number\<close>.
\<close>

theorem walk_json_type_tags:
  "walk_json (JObj [(''a'', JBool True), (''b'', JInt 1), (''c'', JFloat 1.5), (''d'', JNull),
                    (''e'', JStr ''x''), (''f'', JArr []), (''g'', JObj [])]) ''''
     = [(''$'', ''object''), (''a'', ''boolean''), (''b'', ''number''), (''c'', ''number''),
        (''d'', ''null''), (''e'', ''string''), (''f'', ''array''), (''g'', ''object'')]
   \<and> isinstance_int (JBool b) \<and> json_type (JBool b) = ''boolean''
   \<and> json_type (JBool b) \<noteq> ''number''
   \<and> json_type (JInt i) = ''number'' \<and> json_type (JFloat x) = ''number''"
  by simp

text \<open>
  C5. A sequence is walked through its first five elements only: the walk of a sequence
  is the walk of its first five elements, whatever follows them. The walk of
  \<^verbatim>\<open>{"items": [1,2,3,4,5,6,7,8,9,10]}\<close> has five entries at \<^verbatim>\<open>items[]\<close>, one for each of
  the elements at the indices 0 to 4, and with any further elements \<^verbatim>\<open>rest\<close> after the
  first five numbers the set of types at \<^verbatim>\<open>items[]\<close> is \<^verbatim>\<open>{number}\<close>.
\<close>

theorem walk_json_array_sampling:
  "walk_json (JArr xs) base = walk_json (JArr (take 5 xs)) base
   \<and> walk_json (JObj [(''items'', JArr (map JInt [1, 2, 3, 4, 5, 6, 7, 8, 9, 10]))]) ''''
     = [(''$'', ''object''), (''items'', ''array''),
        (''items[]'', ''number''), (''items[]'', ''number''), (''items[]'', ''number''),
        (''items[]'', ''number''), (''items[]'', ''number'')]
   \<and> walk_json (JObj [(''items'', JArr (map JInt [1, 2, 3, 4, 5] @ rest))]) ''''
     = walk_json (JObj [(''items'', JArr (map JInt [1, 2, 3, 4, 5]))]) ''''
   \<and> types_at ''items[]'' (walk_json (JObj [(''items'', JArr (map JInt [1, 2, 3, 4, 5] @ rest))]) '''')
     = {''number''}"
  by (simp add: walk_json_take [of "_ # _ # _ # _ # _ # _"] types_at_def entries_at_def)

text \<open>
  C6. An empty sequence contributes its own entry and nothing else. The walk of
  \<^verbatim>\<open>{"items": []}\<close> is the entry of the root followed by \<^verbatim>\<open>(items, array)\<close>: exactly one
  entry at \<^verbatim>\<open>items\<close>, and none at \<^verbatim>\<open>items[]\<close>.
\<close>

theorem walk_json_empty_array:
  "walk_json (JArr []) base = [(or_root base, ''array'')]
   \<and> walk_json (JObj [(''items'', JArr [])]) '''' = [(''$'', ''object''), (''items'', ''array'')]
   \<and> entries_at ''items'' (walk_json (JObj [(''items'', JArr [])]) '''') = [(''items'', ''array'')]
   \<and> entries_at ''items[]'' (walk_json (JObj [(''items'', JArr [])]) '''') = []"
  by (simp add: entries_at_def)

text \<open>
  C10. The walker terminates on every JSON value and every starting path: each pair of
  arguments is in the domain of the recursion, that is, the calls it makes (on every
  value of a mapping, on the first five elements of a sequence) are well-founded. The
  list it returns is not empty and has at most one entry for each node of the value.
\<close>

theorem walk_json_terminates:
  "walk_json_dom (v, base)
   \<and> walk_json v base \<noteq> []
   \<and> length (walk_json v base) \<le> json_nodes v"
proof -
  have "walk_json_dom (v, base)" by (rule walk_json_dom_all)
  moreover have "walk_json v base \<noteq> []" by (cases v) simp_all
  moreover have "length (walk_json v base) \<le> json_nodes v" by (rule length_walk_json_le)
  ultimately show ?thesis by simp
qed

section \<open>Properties of the schema merger\<close>

subsection \<open>The merged schema as a function of the corpus\<close>

lemma setdefault_simps:
  "map_of result p = None \<Longrightarrow> setdefault result p = \<lparr>types_set = {}, files_set = {}\<rparr>"
  "map_of result p = Some r \<Longrightarrow> setdefault result p = r"
  by (simp_all add: setdefault_def)

lemma map_of_merge_entry:
  "map_of (merge_entry f res (q, ts)) p =
     (if p = q
      then Some \<lparr>types_set = types_set (setdefault res q) \<union> ts,
                 files_set = insert f (files_set (setdefault res q))\<rparr>
      else map_of res p)"
  by (simp add: merge_entry_def Let_def update_conv')

lemma setdefault_merge_entry:
  "setdefault (merge_entry f res (q, ts)) p =
     (if p = q
      then \<lparr>types_set = types_set (setdefault res q) \<union> ts,
            files_set = insert f (files_set (setdefault res q))\<rparr>
      else setdefault res p)"
  by (simp add: setdefault_def map_of_merge_entry)

lemma dom_merge_entry:
  "fst ` set (merge_entry f res (q, ts)) = insert q (fst ` set res)"
  by (simp add: merge_entry_def Let_def dom_update)

lemma distinct_merge_entry:
  "distinct (map fst res) \<Longrightarrow> distinct (map fst (merge_entry f res e))"
  by (cases e) (simp add: merge_entry_def Let_def distinct_update)

text \<open>One file folded into the accumulated \<^verbatim>\<open>result\<close>.\<close>

lemma setdefault_fold_entries:
  "setdefault (foldl (merge_entry f) res es) p =
     (if p \<in> fst ` set es
      then \<lparr>types_set = types_set (setdefault res p) \<union> \<Union> {ts. (p, ts) \<in> set es},
            files_set = insert f (files_set (setdefault res p))\<rparr>
      else setdefault res p)"
proof (induction es arbitrary: res)
  case Nil
  show ?case by simp
next
  case (Cons e es)
  obtain q ts where e: "e = (q, ts)" by (cases e)
  have V: "q \<noteq> p \<Longrightarrow> {ts'. (p, ts') \<in> set ((q, ts) # es)} = {ts'. (p, ts') \<in> set es}"
    by auto
  have X: "p \<in> fst ` set ((q, ts) # es) \<longleftrightarrow> p = q \<or> p \<in> fst ` set es"
    by auto
  show ?case
  proof (cases "p = q")
    case True
    show ?thesis
    proof (cases "p \<in> fst ` set es")
      case True
      with \<open>p = q\<close> show ?thesis
        unfolding e foldl_Cons Cons.IH setdefault_merge_entry X
        by (auto simp: Un_assoc)
    next
      case False
      then have "(p, ts') \<notin> set es" for ts'
        by force
      with False \<open>p = q\<close> show ?thesis
        unfolding e foldl_Cons Cons.IH setdefault_merge_entry X
        by simp
    qed
  next
    case False
    then have "q \<noteq> p" by simp
    with False show ?thesis
      unfolding e foldl_Cons Cons.IH setdefault_merge_entry X
      by (simp add: V)
  qed
qed

lemma keys_fold_entries:
  "fst ` set (foldl (merge_entry f) res es) = fst ` set res \<union> fst ` set es"
proof (induction es arbitrary: res)
  case (Cons e es)
  then show ?case by (cases e) (auto simp: dom_merge_entry)
qed simp

lemma distinct_fold_entries:
  "distinct (map fst res) \<Longrightarrow> distinct (map fst (foldl (merge_entry f) res es))"
  by (induction es arbitrary: res) (simp_all add: distinct_merge_entry)

text \<open>All files folded.\<close>

lemma keys_merge_file:
  "fst ` set (merge_file res s) = fst ` set res \<union> fst ` set (path_types s)"
  by (simp add: merge_file_def keys_fold_entries)

lemma distinct_merge_file:
  "distinct (map fst res) \<Longrightarrow> distinct (map fst (merge_file res s))"
  by (simp add: merge_file_def distinct_fold_entries)

lemma setdefault_merge_file:
  "setdefault (merge_file res s) p =
     (if p \<in> fst ` set (path_types s)
      then \<lparr>types_set = types_set (setdefault res p) \<union> \<Union> {ts. (p, ts) \<in> set (path_types s)},
            files_set = insert (path s) (files_set (setdefault res p))\<rparr>
      else setdefault res p)"
  by (simp add: merge_file_def setdefault_fold_entries)

lemma keys_fold_files:
  "fst ` set (foldl merge_file res ss) = fst ` set res \<union> all_paths ss"
proof (induction ss arbitrary: res)
  case Nil
  show ?case by (simp add: all_paths_def)
next
  case (Cons s ss)
  have "all_paths (s # ss) = fst ` set (path_types s) \<union> all_paths ss"
    by (auto simp: all_paths_def)
  then show ?case
    by (simp add: Cons.IH keys_merge_file Un_assoc)
qed

lemma distinct_fold_files:
  "distinct (map fst res) \<Longrightarrow> distinct (map fst (foldl merge_file res ss))"
  by (induction ss arbitrary: res) (simp_all add: distinct_merge_file)

lemma p_types_Cons: "p_types (s # ss) p = \<Union> {ts. (p, ts) \<in> set (path_types s)} \<union> p_types ss p"
  by (auto simp: p_types_def)

lemma p_files_Cons:
  "p_files (s # ss) p =
     (if p \<in> fst ` set (path_types s) then insert (path s) (p_files ss p) else p_files ss p)"
  by (auto simp: p_files_def)

lemma p_types_empty_entries: "p \<notin> fst ` set (path_types s) \<Longrightarrow> \<Union> {ts. (p, ts) \<in> set (path_types s)} = {}"
  by force

lemma setdefault_fold_files:
  "setdefault (foldl merge_file res ss) p =
     \<lparr>types_set = types_set (setdefault res p) \<union> p_types ss p,
      files_set = files_set (setdefault res p) \<union> p_files ss p\<rparr>"
proof (induction ss arbitrary: res)
  case Nil
  show ?case by (simp add: p_types_def p_files_def)
next
  case (Cons s ss)
  show ?case
    unfolding foldl_Cons Cons.IH
    by (simp add: setdefault_merge_file p_types_Cons p_files_Cons
        p_types_empty_entries Un_assoc)
qed

lemma setdefault_Nil: "setdefault [] p = \<lparr>types_set = {}, files_set = {}\<rparr>"
  by (simp add: setdefault_def)

lemma map_of_setdefault:
  "p \<in> fst ` set res \<Longrightarrow> map_of res p = Some (setdefault res p)"
  by (auto simp: setdefault_def map_of_eq_None_iff split: option.splits)

lemma map_of_collect:
  "map_of (foldl merge_file [] ss) p =
     (if p \<in> all_paths ss
      then Some \<lparr>types_set = p_types ss p, files_set = p_files ss p\<rparr>
      else None)"
proof (cases "p \<in> all_paths ss")
  case True
  then have "p \<in> fst ` set (foldl merge_file [] ss)" by (simp add: keys_fold_files)
  then have "map_of (foldl merge_file [] ss) p = Some (setdefault (foldl merge_file [] ss) p)"
    by (rule map_of_setdefault)
  with True show ?thesis by (simp only: setdefault_fold_files setdefault_Nil) simp
next
  case False
  then have "p \<notin> fst ` set (foldl merge_file [] ss)" by (simp add: keys_fold_files)
  with False show ?thesis by (simp add: map_of_eq_None_iff)
qed

lemma map_of_merge_schemas:
  "map_of (merge_schemas ss) p =
     (if p \<in> all_paths ss
      then Some (finalize (set (map path ss)) \<lparr>types_set = p_types ss p, files_set = p_files ss p\<rparr>)
      else None)"
proof -
  have "map_of (map (\<lambda>(p, rec). (p, finalize A rec)) xs) p = map_option (finalize A) (map_of xs p)"
    for A and xs :: "(string \<times> path_sets) list"
    by (induction xs) auto
  then show ?thesis
    by (simp add: merge_schemas_def Let_def map_of_collect)
qed

lemma keys_merge_schemas: "map fst (merge_schemas ss) = map fst (foldl merge_file [] ss)"
  by (simp add: merge_schemas_def Let_def case_prod_beta comp_def)

lemma distinct_merge_schemas: "distinct (map fst (merge_schemas ss))"
  by (simp add: keys_merge_schemas distinct_fold_files)

lemma set_merge_schemas:
  "(p, r) \<in> set (merge_schemas ss) \<longleftrightarrow>
     p \<in> all_paths ss \<and>
     r = finalize (set (map path ss)) \<lparr>types_set = p_types ss p, files_set = p_files ss p\<rparr>"
proof -
  have "(p, r) \<in> set (merge_schemas ss) \<longleftrightarrow> map_of (merge_schemas ss) p = Some r"
    by (simp add: distinct_merge_schemas)
  then show ?thesis
    by (auto simp only: map_of_merge_schemas split: if_splits)
qed

lemma finite_p_files: "finite (p_files ss p)"
  by (simp add: p_files_def)

lemma p_files_nonempty: "p \<in> all_paths ss \<Longrightarrow> p_files ss p \<noteq> {}"
  by (auto simp: all_paths_def p_files_def)

subsection \<open>The schemas of analyzed files\<close>

lemma add_type_alt: "add_type d (p, t) = AList.update p (insert t (get_types d p)) d"
  by (simp add: add_type_def)

lemma get_types_add_type:
  "get_types (add_type d (q, t)) p = (if p = q then insert t (get_types d q) else get_types d p)"
  by (simp add: add_type_alt get_types_def update_conv')

lemma keys_add_type: "fst ` set (add_type d (q, t)) = insert q (fst ` set d)"
  by (simp add: add_type_alt dom_update)

lemma get_types_fold:
  "get_types (foldl add_type d pairs) p = get_types d p \<union> {t. (p, t) \<in> set pairs}"
proof (induction pairs arbitrary: d)
  case (Cons e pairs)
  obtain q t where e: "e = (q, t)" by (cases e)
  show ?case
    unfolding e foldl_Cons Cons.IH
    by (auto simp: get_types_add_type)
qed simp

lemma keys_fold_add_type:
  "fst ` set (foldl add_type d pairs) = fst ` set d \<union> fst ` set pairs"
proof (induction pairs arbitrary: d)
  case (Cons e pairs)
  then show ?case by (cases e) (auto simp: keys_add_type)
qed simp

lemma distinct_fold_add_type:
  "distinct (map fst d) \<Longrightarrow> distinct (map fst (foldl add_type d pairs))"
proof (induction pairs arbitrary: d)
  case (Cons e pairs)
  then show ?case by (cases e) (simp add: add_type_alt distinct_update)
qed simp

lemma entry_get_types:
  "distinct (map fst d) \<Longrightarrow> (p, ts) \<in> set d \<longleftrightarrow> p \<in> fst ` set d \<and> ts = get_types d p"
proof -
  assume "distinct (map fst d)"
  then have A: "(p, ts) \<in> set d \<longleftrightarrow> map_of d p = Some ts"
    by simp
  have B: "map_of d p = Some ts \<longleftrightarrow> p \<in> fst ` set d \<and> ts = get_types d p"
  proof (cases "map_of d p")
    case None
    then have "p \<notin> fst ` set d" by (simp add: map_of_eq_None_iff)
    with None show ?thesis by simp
  next
    case (Some x)
    then have "p \<in> fst ` set d" by (metis map_of_eq_None_iff option.distinct(1))
    with Some show ?thesis by (auto simp: get_types_def)
  qed
  from A B show ?thesis by simp
qed

lemma set_collect_types:
  "(p, ts) \<in> set (foldl add_type [] pairs) \<longleftrightarrow>
     p \<in> fst ` set pairs \<and> ts = {t. (p, t) \<in> set pairs}"
proof -
  have "distinct (map fst (foldl add_type [] pairs))"
    by (rule distinct_fold_add_type) simp
  then show ?thesis
    by (simp add: entry_get_types keys_fold_add_type get_types_fold) (simp add: get_types_def)
qed

lemma finite_entries: "finite {t. (p, t) \<in> set pairs}"
proof -
  have "{t. (p, t) \<in> set pairs} \<subseteq> snd ` set pairs" by force
  then show ?thesis by (rule finite_subset) simp
qed

lemma analyze_file_types:
  "(p, ts) \<in> set (path_types (analyze_file load f)) \<Longrightarrow> finite ts \<and> ts \<noteq> {}"
  by (cases "load f") (auto simp: analyze_file_def set_collect_types finite_entries)

lemma analyze_files_types:
  "s \<in> set (analyze_files load fs) \<Longrightarrow> (p, ts) \<in> set (path_types s) \<Longrightarrow> finite ts \<and> ts \<noteq> {}"
  by (auto simp: analyze_files_def dest: analyze_file_types)

lemma path_analyze_file: "path (analyze_file load f) = f"
  by (cases "load f") (simp_all add: analyze_file_def)

lemma finite_p_types:
  assumes "\<And>s ts. s \<in> set ss \<Longrightarrow> (p, ts) \<in> set (path_types s) \<Longrightarrow> finite ts"
  shows "finite (p_types ss p)"
proof -
  have "{ts. \<exists>s \<in> set ss. (p, ts) \<in> set (path_types s)} \<subseteq> snd ` (\<Union>s \<in> set ss. set (path_types s))"
    by force
  then have "finite {ts. \<exists>s \<in> set ss. (p, ts) \<in> set (path_types s)}"
    by (rule finite_subset) simp
  then show ?thesis
    unfolding p_types_def using assms by (intro finite_Union) auto
qed

lemma merged_entry_present:
  assumes s: "s \<in> set ss" and e: "(p, ts) \<in> set (path_types s)" and t: "t \<in> ts"
    and fin: "\<And>s ts. s \<in> set ss \<Longrightarrow> (p, ts) \<in> set (path_types s) \<Longrightarrow> finite ts"
  shows "\<exists>r. map_of (merge_schemas ss) p = Some r \<and> t \<in> set (types r) \<and> path s \<in> set (files r)"
proof -
  have p: "p \<in> all_paths ss" using s e by (force simp: all_paths_def)
  have "t \<in> p_types ss p" using s e t by (auto simp: p_types_def)
  moreover have "path s \<in> p_files ss p" using s e by (force simp: p_files_def)
  moreover have "finite (p_types ss p)" using fin by (rule finite_p_types)
  ultimately show ?thesis
    using p by (simp add: map_of_merge_schemas finalize_def Let_def finite_p_files)
qed

lemma analyze_files_nth:
  "i < length fs \<Longrightarrow> analyze_files load fs ! i = analyze_file load (fs ! i)"
  by (simp add: analyze_files_def)

lemma walk_entry_collected:
  assumes "(p, t) \<in> set pairs"
  shows "\<exists>ts. (p, ts) \<in> set (foldl add_type [] pairs) \<and> t \<in> ts"
proof -
  from assms have "p \<in> fst ` set pairs" by force
  then have "(p, {t'. (p, t') \<in> set pairs}) \<in> set (foldl add_type [] pairs)"
    by (simp add: set_collect_types)
  with assms show ?thesis by blast
qed

lemma dict_entry_iff:
  "distinct (map fst d) \<Longrightarrow> map_of d p = Some v \<Longrightarrow> (p, v') \<in> set d \<longleftrightarrow> v' = v"
  by (auto dest: eq_key_imp_eq_value)

lemma dict_no_entry: "map_of d p = None \<Longrightarrow> (p, v) \<notin> set d"
  by (force simp: map_of_eq_None_iff)

lemma mem_filtered_paths:
  assumes "distinct (map fst merged)"
  shows "p \<in> set (map fst (filter (\<lambda>(p, r). P r) merged)) \<longleftrightarrow> (\<exists>r. map_of merged p = Some r \<and> P r)"
proof -
  have "p \<in> set (map fst (filter (\<lambda>(p, r). P r) merged)) \<longleftrightarrow> (\<exists>r. (p, r) \<in> set merged \<and> P r)"
    by force
  then show ?thesis using assms by simp
qed


subsection \<open>Evaluating the definitions on examples\<close>

lemmas merge_eval = merge_schemas_def merge_file_def merge_entry_def setdefault_def finalize_def insert_Diff_if
lemmas analyze_eval = analyze_files_def analyze_file_def add_type_def get_types_def ex_load_def


subsection \<open>The claims about analysis and merging\<close>

text \<open>
  C1. Merging the per-file schemas of a corpus in any permutation of the file order gives
  the same finalized schema: the same paths, and at every path the same record, that is
  the same sorted \<^verbatim>\<open>types\<close>, \<^verbatim>\<open>files\<close> and \<^verbatim>\<open>missing_in_files\<close> lists. (The order in
  which the \<^verbatim>\<open>dict\<close> lists its paths may differ; the claim is about the mapping.)
\<close>

theorem merge_schemas_order_independent:
  assumes "mset ss' = mset ss"
  shows "map_of (merge_schemas ss') = map_of (merge_schemas ss)
         \<and> set (merge_schemas ss') = set (merge_schemas ss)"
proof -
  have S: "set ss' = set ss" using assms by (rule mset_eq_setD)
  have A: "all_paths ss' = all_paths ss" by (simp add: all_paths_def S)
  have T: "p_types ss' p = p_types ss p" for p by (simp add: p_types_def S)
  have F: "p_files ss' p = p_files ss p" for p by (simp add: p_files_def S)
  have P: "set (map path ss') = set (map path ss)" by (simp add: S)
  have "map_of (merge_schemas ss') p = map_of (merge_schemas ss) p" for p
    by (simp only: map_of_merge_schemas A T F P)
  then have M: "map_of (merge_schemas ss') = map_of (merge_schemas ss)" by (rule ext)
  have "(p, r) \<in> set (merge_schemas ss') \<longleftrightarrow> (p, r) \<in> set (merge_schemas ss)" for p r
    by (simp only: set_merge_schemas A T F P)
  then have "set (merge_schemas ss') = set (merge_schemas ss)" by auto
  with M show ?thesis by simp
qed

theorem merge_schemas_order_independent_witness:
  "mset [\<lparr>path = ''B'', path_types = [(''$'', {''object''}), (''$.b'', {''number''})]\<rparr>,
         \<lparr>path = ''A'', path_types = [(''$'', {''array''})]\<rparr>]
     = mset [\<lparr>path = ''A'', path_types = [(''$'', {''array''})]\<rparr>,
             \<lparr>path = ''B'', path_types = [(''$'', {''object''}), (''$.b'', {''number''})]\<rparr>]
   \<and> map_of (merge_schemas
         [\<lparr>path = ''B'', path_types = [(''$'', {''object''}), (''$.b'', {''number''})]\<rparr>,
          \<lparr>path = ''A'', path_types = [(''$'', {''array''})]\<rparr>])
     = map_of (merge_schemas
         [\<lparr>path = ''A'', path_types = [(''$'', {''array''})]\<rparr>,
          \<lparr>path = ''B'', path_types = [(''$'', {''object''}), (''$.b'', {''number''})]\<rparr>])
   \<and> map_of (merge_schemas
         [\<lparr>path = ''A'', path_types = [(''$'', {''array''})]\<rparr>,
          \<lparr>path = ''B'', path_types = [(''$'', {''object''}), (''$.b'', {''number''})]\<rparr>]) ''$''
     = Some \<lparr>types = [''array'', ''object''], files = [''A'', ''B''], missing_in_files = []\<rparr>"
proof -
  let ?a = "\<lparr>path = ''A'', path_types = [(''$'', {''array''})]\<rparr>"
  let ?b = "\<lparr>path = ''B'', path_types = [(''$'', {''object''}), (''$.b'', {''number''})]\<rparr>"
  have h: "mset [?b, ?a] = mset [?a, ?b]" by simp
  have v: "map_of (merge_schemas [?a, ?b]) ''$''
     = Some \<lparr>types = [''array'', ''object''], files = [''A'', ''B''], missing_in_files = []\<rparr>"
    by (simp add: merge_eval)
  from h v merge_schemas_order_independent [OF h] show ?thesis by blast
qed

text \<open>
  C7. After finalization, at every path of the merged schema \<^verbatim>\<open>missing_in_files\<close> holds
  the files of the corpus minus the files of the path, and each of \<^verbatim>\<open>types\<close>, \<^verbatim>\<open>files\<close>
  and \<^verbatim>\<open>missing_in_files\<close> is sorted (and free of duplicates).
\<close>

theorem merge_schemas_finalized:
  assumes "(p, r) \<in> set (merge_schemas ss)"
  shows "set (missing_in_files r) = set (map path ss) - set (files r)
         \<and> sorted (types r) \<and> sorted (files r) \<and> sorted (missing_in_files r)
         \<and> distinct (types r) \<and> distinct (files r) \<and> distinct (missing_in_files r)"
proof -
  from assms obtain rec where r: "r = finalize (set (map path ss)) rec"
    by (auto simp: merge_schemas_def Let_def)
  have "finite (set (map path ss) - set (sorted_list_of_set (files_set rec)))" by simp
  then show ?thesis
    unfolding r finalize_def Let_def by simp
qed

theorem merge_schemas_finalized_witness:
  "(''x'', \<lparr>types = [''number'', ''string''], files = [''A'', ''C''], missing_in_files = [''B'']\<rparr>)
     \<in> set (merge_schemas
         [\<lparr>path = ''C'', path_types = [(''x'', {''string''})]\<rparr>,
          \<lparr>path = ''B'', path_types = []\<rparr>,
          \<lparr>path = ''A'', path_types = [(''x'', {''number''})]\<rparr>])
   \<and> set [''B''] = set (map path
         [\<lparr>path = ''C'', path_types = [(''x'', {''string''})]\<rparr>,
          \<lparr>path = ''B'', path_types = []\<rparr>,
          \<lparr>path = ''A'', path_types = [(''x'', {''number''})]\<rparr>]) - set [''A'', ''C'']
   \<and> sorted [''number'', ''string''] \<and> sorted [''A'', ''C''] \<and> sorted [''B'']"
proof -
  let ?ss = "[\<lparr>path = ''C'', path_types = [(''x'', {''string''})]\<rparr>,
          \<lparr>path = ''B'', path_types = []\<rparr>,
          \<lparr>path = ''A'', path_types = [(''x'', {''number''})]\<rparr>]"
  let ?r = "\<lparr>types = [''number'', ''string''], files = [''A'', ''C''], missing_in_files = [''B'']\<rparr>"
  have h: "(''x'', ?r) \<in> set (merge_schemas ?ss)"
    by (simp add: merge_eval)
  from h merge_schemas_finalized [OF h] show ?thesis by simp
qed

text \<open>
  C9. In the schema merged from the per-file schemas that \<^verbatim>\<open>analyze_files\<close> produces,
  every record has a non-empty \<^verbatim>\<open>types\<close> list and a non-empty \<^verbatim>\<open>files\<close> list.
\<close>

theorem merged_records_nonempty:
  assumes "(p, r) \<in> set (merge_schemas (analyze_files load fs))"
  shows "types r \<noteq> [] \<and> files r \<noteq> []"
proof -
  let ?ss = "analyze_files load fs"
  from assms have p: "p \<in> all_paths ?ss"
    and r: "r = finalize (set (map path ?ss)) \<lparr>types_set = p_types ?ss p, files_set = p_files ?ss p\<rparr>"
    by (simp_all add: set_merge_schemas)
  from p obtain s ts where s: "s \<in> set ?ss" "(p, ts) \<in> set (path_types s)"
    by (auto simp: all_paths_def)
  then have "ts \<noteq> {}" by (auto dest: analyze_files_types)
  with s have "p_types ?ss p \<noteq> {}" by (auto simp: p_types_def)
  moreover have "finite (p_types ?ss p)"
    by (rule finite_p_types) (auto dest: analyze_files_types)
  ultimately have "sorted_list_of_set (p_types ?ss p) \<noteq> []"
    by (simp add: sorted_list_of_set_nonempty)
  moreover have "sorted_list_of_set (p_files ?ss p) \<noteq> []"
    using p by (simp add: sorted_list_of_set_nonempty finite_p_files p_files_nonempty)
  ultimately show ?thesis
    unfolding r finalize_def Let_def by simp
qed

theorem merged_records_nonempty_witness:
  "(''$'', \<lparr>types = [''invalid_json'', ''object''], files = [''bad.json'', ''ok.json''],
            missing_in_files = []\<rparr>)
     \<in> set (merge_schemas (analyze_files ex_load [''ok.json'', ''bad.json'']))
   \<and> [''invalid_json'', ''object''] \<noteq> [] \<and> [''bad.json'', ''ok.json''] \<noteq> []"
proof -
  let ?r = "\<lparr>types = [''invalid_json'', ''object''], files = [''bad.json'', ''ok.json''],
            missing_in_files = []\<rparr>"
  have h: "(''$'', ?r) \<in> set (merge_schemas (analyze_files ex_load [''ok.json'', ''bad.json'']))"
    by (simp add: merge_eval analyze_eval)
  from h merged_records_nonempty [OF h] show ?thesis by simp
qed

text \<open>
  C2. The analysis is total over a corpus with files that fail to parse. There is one
  schema for each file, in order. A file whose load fails contributes exactly the
  \<^verbatim>\<open>dict\<close> that maps \<^verbatim>\<open>$\<close> to \<^verbatim>\<open>{invalid_json}\<close>, and the merged schema records
  \<^verbatim>\<open>invalid_json\<close> and the file at \<^verbatim>\<open>$\<close>. A file that parses is still walked and
  merged, whatever the other files are: every entry of its walk is in the merged schema,
  with the file among the files of the path.
\<close>

theorem analyze_files_recovers_parse_errors:
  assumes "i < length fs"
  shows "length (analyze_files load fs) = length fs
    \<and> path (analyze_files load fs ! i) = fs ! i
    \<and> (\<forall>e. load (fs ! i) = Inl e \<longrightarrow>
          path_types (analyze_files load fs ! i) = [(''$'', {''invalid_json''})]
          \<and> (\<exists>r. map_of (merge_schemas (analyze_files load fs)) ''$'' = Some r
                 \<and> ''invalid_json'' \<in> set (types r) \<and> fs ! i \<in> set (files r)))
    \<and> (\<forall>obj p t. load (fs ! i) = Inr obj \<longrightarrow> (p, t) \<in> set (walk_json obj ''$'') \<longrightarrow>
          path_types (analyze_files load fs ! i) = foldl add_type [] (walk_json obj ''$'')
          \<and> (\<exists>r. map_of (merge_schemas (analyze_files load fs)) p = Some r
                 \<and> t \<in> set (types r) \<and> fs ! i \<in> set (files r)))"
proof -
  let ?ss = "analyze_files load fs"
  let ?s = "analyze_file load (fs ! i)"
  have nth: "?ss ! i = ?s" using assms by (rule analyze_files_nth)
  have mem: "?s \<in> set ?ss" using assms by (simp add: analyze_files_def)
  have pth: "path ?s = fs ! i" by (rule path_analyze_file)
  have fin: "finite ts" if "s \<in> set ?ss" "(p, ts) \<in> set (path_types s)" for s p ts
    using that by (auto dest: analyze_files_types)
  have present: "\<exists>r. map_of (merge_schemas ?ss) p = Some r \<and> t \<in> set (types r) \<and> fs ! i \<in> set (files r)"
    if "(p, ts) \<in> set (path_types ?s)" "t \<in> ts" for p ts t
    using merged_entry_present [OF mem that fin] by (simp add: pth)
  have bad: "path_types ?s = [(''$'', {''invalid_json''})]
      \<and> (\<exists>r. map_of (merge_schemas ?ss) ''$'' = Some r
             \<and> ''invalid_json'' \<in> set (types r) \<and> fs ! i \<in> set (files r))"
    if "load (fs ! i) = Inl e" for e
  proof -
    from that have pt: "path_types ?s = [(''$'', {''invalid_json''})]"
      by (simp add: analyze_file_def)
    then have "(''$'', {''invalid_json''}) \<in> set (path_types ?s)" by simp
    from present [OF this] pt show ?thesis by simp
  qed
  have good: "path_types ?s = foldl add_type [] (walk_json obj ''$'')
      \<and> (\<exists>r. map_of (merge_schemas ?ss) p = Some r \<and> t \<in> set (types r) \<and> fs ! i \<in> set (files r))"
    if "load (fs ! i) = Inr obj" "(p, t) \<in> set (walk_json obj ''$'')" for obj p t
  proof -
    from that(1) have pt: "path_types ?s = foldl add_type [] (walk_json obj ''$'')"
      by (simp add: analyze_file_def)
    from walk_entry_collected [OF that(2)] obtain ts
      where "(p, ts) \<in> set (path_types ?s)" "t \<in> ts" unfolding pt by blast
    from present [OF this] pt show ?thesis by simp
  qed
  have "length ?ss = length fs" by (simp add: analyze_files_def)
  with bad good show ?thesis unfolding nth pth by blast
qed

theorem analyze_files_recovers_parse_errors_witness:
  "(1::nat) < length [''ok.json'', ''bad.json'']
   \<and> ex_load ([''ok.json'', ''bad.json''] ! 1) = Inl ParseError
   \<and> length (analyze_files ex_load [''ok.json'', ''bad.json'']) = 2
   \<and> path_types (analyze_files ex_load [''ok.json'', ''bad.json''] ! 1) = [(''$'', {''invalid_json''})]
   \<and> (\<exists>r. map_of (merge_schemas (analyze_files ex_load [''ok.json'', ''bad.json''])) ''$'' = Some r
          \<and> ''invalid_json'' \<in> set (types r) \<and> ''bad.json'' \<in> set (files r))
   \<and> (0::nat) < length [''ok.json'', ''bad.json'']
   \<and> ex_load ([''ok.json'', ''bad.json''] ! 0) = Inr (JObj [(''name'', JStr ''a'')])
   \<and> (''$.name'', ''string'') \<in> set (walk_json (JObj [(''name'', JStr ''a'')]) ''$'')
   \<and> (\<exists>r. map_of (merge_schemas (analyze_files ex_load [''ok.json'', ''bad.json''])) ''$.name''
            = Some r
          \<and> ''string'' \<in> set (types r) \<and> ''ok.json'' \<in> set (files r))"
proof -
  have h: "(1::nat) < length [''ok.json'', ''bad.json'']" by simp
  have e: "ex_load ([''ok.json'', ''bad.json''] ! 1) = Inl ParseError" by (simp add: ex_load_def)
  have h0: "(0::nat) < length [''ok.json'', ''bad.json'']" by simp
  have e0: "ex_load ([''ok.json'', ''bad.json''] ! 0) = Inr (JObj [(''name'', JStr ''a'')])"
    by (simp add: ex_load_def)
  have w0: "(''$.name'', ''string'') \<in> set (walk_json (JObj [(''name'', JStr ''a'')]) ''$'')"
    by simp
  have bad: "path_types (analyze_files ex_load [''ok.json'', ''bad.json''] ! 1)
        = [(''$'', {''invalid_json''})]
      \<and> (\<exists>r. map_of (merge_schemas (analyze_files ex_load [''ok.json'', ''bad.json''])) ''$''
               = Some r
             \<and> ''invalid_json'' \<in> set (types r) \<and> ''bad.json'' \<in> set (files r))"
    using analyze_files_recovers_parse_errors [OF h, of ex_load] e by simp
  have good: "\<exists>r. map_of (merge_schemas (analyze_files ex_load [''ok.json'', ''bad.json'']))
               ''$.name'' = Some r
             \<and> ''string'' \<in> set (types r) \<and> ''ok.json'' \<in> set (files r)"
    using analyze_files_recovers_parse_errors [OF h0, of ex_load] e0 w0 by simp
  have len: "length (analyze_files ex_load [''ok.json'', ''bad.json'']) = 2"
    by (simp add: analyze_files_def)
  from h e len bad h0 e0 w0 good show ?thesis by blast
qed

text \<open>
  C8. Three files, a path that holds a string in the first, a number in the second and
  is absent from the third: the merged record of the path has the types
  \<^verbatim>\<open>number, string\<close>, the first two files as \<^verbatim>\<open>files\<close> and the third as
  \<^verbatim>\<open>missing_in_files\<close>. The path is among the paths with a type conflict, which
  \<^verbatim>\<open>summarize_schema\<close> counts, and not among the unique paths, since it has two files.
\<close>

theorem merge_three_files_conflict:
  assumes files: "distinct [path sA, path sB, path sC]"
    and dicts: "distinct (map fst (path_types sA))" "distinct (map fst (path_types sB))"
    and A: "map_of (path_types sA) p = Some {''string''}"
    and B: "map_of (path_types sB) p = Some {''number''}"
    and C: "map_of (path_types sC) p = None"
  shows "map_of (merge_schemas [sA, sB, sC]) p =
           Some \<lparr>types = [''number'', ''string''],
                 files = sorted_list_of_set {path sA, path sB},
                 missing_in_files = [path sC]\<rparr>
         \<and> length (sorted_list_of_set {path sA, path sB}) = 2
         \<and> p \<in> set (type_conflict_list (merge_schemas [sA, sB, sC]))
         \<and> p \<in> set (paths_missing (merge_schemas [sA, sB, sC]))
         \<and> p \<notin> set (unique_paths (merge_schemas [sA, sB, sC]))
         \<and> paths_with_type_conflict_count (summarize_schema (merge_schemas [sA, sB, sC]))
             = length (type_conflict_list (merge_schemas [sA, sB, sC]))
         \<and> unique_paths_count (summarize_schema (merge_schemas [sA, sB, sC]))
             = length (unique_paths (merge_schemas [sA, sB, sC]))"
proof -
  let ?ss = "[sA, sB, sC]"
  let ?m = "merge_schemas ?ss"
  let ?r = "\<lparr>types = [''number'', ''string''], files = sorted_list_of_set {path sA, path sB},
            missing_in_files = [path sC]\<rparr>"
  have eA: "(p, ts) \<in> set (path_types sA) \<longleftrightarrow> ts = {''string''}" for ts
    using dicts(1) A by (rule dict_entry_iff)
  have eB: "(p, ts) \<in> set (path_types sB) \<longleftrightarrow> ts = {''number''}" for ts
    using dicts(2) B by (rule dict_entry_iff)
  have eC: "(p, ts) \<notin> set (path_types sC)" for ts
    using C by (rule dict_no_entry)
  have "(p, {''string''}) \<in> set (path_types sA)" using A by (rule map_of_SomeD)
  then have kA: "p \<in> fst ` set (path_types sA)" by force
  have "(p, {''number''}) \<in> set (path_types sB)" using B by (rule map_of_SomeD)
  then have kB: "p \<in> fst ` set (path_types sB)" by force
  have kC: "p \<notin> fst ` set (path_types sC)" using eC by force
  have paths: "p \<in> all_paths ?ss" using kA by (simp add: all_paths_def)
  have "p_types ?ss p = {''string''} \<union> {''number''}"
    by (auto simp: p_types_def eA eB eC)
  then have ty: "sorted_list_of_set (p_types ?ss p) = [''number'', ''string'']"
    by simp
  have "{s \<in> set ?ss. p \<in> fst ` set (path_types s)} = {sA, sB}"
    using kA kB kC by auto
  then have fl: "p_files ?ss p = {path sA, path sB}"
    by (simp add: p_files_def)
  have sf: "set (sorted_list_of_set {path sA, path sB}) = {path sA, path sB}"
    by (rule set_sorted_list_of_set) simp
  have "set (map path ?ss) - {path sA, path sB} = {path sC}"
    using files by auto
  then have ms: "sorted_list_of_set (set (map path ?ss) - set (sorted_list_of_set {path sA, path sB}))
      = [path sC]"
    by (simp only: sf sorted_list_of_set.sorted_key_list_of_set_unique) simp
  have rec: "map_of ?m p = Some ?r"
    using paths ty ms by (simp only: map_of_merge_schemas finalize_def Let_def fl path_sets.simps if_True)
  have "card {path sA, path sB} = 2"
    using files by simp
  then have len: "length (sorted_list_of_set {path sA, path sB}) = 2"
    by (simp only: length_sorted_list_of_set)
  have d: "distinct (map fst ?m)" by (rule distinct_merge_schemas)
  have "p \<in> set (type_conflict_list ?m)"
    unfolding type_conflict_list_def mem_filtered_paths [OF d] rec by simp
  moreover have "p \<in> set (paths_missing ?m)"
    unfolding paths_missing_def mem_filtered_paths [OF d] rec by simp
  moreover have "p \<notin> set (unique_paths ?m)"
    unfolding unique_paths_def mem_filtered_paths [OF d] rec using len by simp
  ultimately show ?thesis
    using rec len by (simp add: summarize_schema_def)
qed

theorem merge_three_files_conflict_witness:
  "distinct [''A'', ''B'', ''C'']
   \<and> map_of [(''x'', {''object''}), (''x.y'', {''string''})] ''x.y'' = Some {''string''}
   \<and> map_of [(''x'', {''object''}), (''x.y'', {''number''})] ''x.y'' = Some {''number''}
   \<and> map_of [(''z'', {''null''})] ''x.y'' = None
   \<and> map_of (merge_schemas
        [\<lparr>path = ''A'', path_types = [(''x'', {''object''}), (''x.y'', {''string''})]\<rparr>,
         \<lparr>path = ''B'', path_types = [(''x'', {''object''}), (''x.y'', {''number''})]\<rparr>,
         \<lparr>path = ''C'', path_types = [(''z'', {''null''})]\<rparr>]) ''x.y''
       = Some \<lparr>types = [''number'', ''string''], files = [''A'', ''B''], missing_in_files = [''C'']\<rparr>
   \<and> ''x.y'' \<in> set (type_conflict_list (merge_schemas
        [\<lparr>path = ''A'', path_types = [(''x'', {''object''}), (''x.y'', {''string''})]\<rparr>,
         \<lparr>path = ''B'', path_types = [(''x'', {''object''}), (''x.y'', {''number''})]\<rparr>,
         \<lparr>path = ''C'', path_types = [(''z'', {''null''})]\<rparr>]))
   \<and> ''x.y'' \<notin> set (unique_paths (merge_schemas
        [\<lparr>path = ''A'', path_types = [(''x'', {''object''}), (''x.y'', {''string''})]\<rparr>,
         \<lparr>path = ''B'', path_types = [(''x'', {''object''}), (''x.y'', {''number''})]\<rparr>,
         \<lparr>path = ''C'', path_types = [(''z'', {''null''})]\<rparr>]))
   \<and> summarize_schema (merge_schemas
        [\<lparr>path = ''A'', path_types = [(''x'', {''object''}), (''x.y'', {''string''})]\<rparr>,
         \<lparr>path = ''B'', path_types = [(''x'', {''object''}), (''x.y'', {''number''})]\<rparr>,
         \<lparr>path = ''C'', path_types = [(''z'', {''null''})]\<rparr>])
       = \<lparr>total_paths = 3,
          paths_with_type_conflict_count = 1, paths_with_type_conflict = [''x.y''],
          paths_missing_count = 3, paths_missing_examples = [''x'', ''x.y'', ''z''],
          unique_paths_count = 1, unique_paths_examples = [''z'']\<rparr>"
proof -
  let ?a = "\<lparr>path = ''A'', path_types = [(''x'', {''object''}), (''x.y'', {''string''})]\<rparr>"
  let ?b = "\<lparr>path = ''B'', path_types = [(''x'', {''object''}), (''x.y'', {''number''})]\<rparr>"
  let ?c = "\<lparr>path = ''C'', path_types = [(''z'', {''null''})]\<rparr>"
  have f: "distinct [path ?a, path ?b, path ?c]" by simp
  have d: "distinct (map fst (path_types ?a))" "distinct (map fst (path_types ?b))" by simp_all
  have A: "map_of (path_types ?a) ''x.y'' = Some {''string''}" by simp
  have B: "map_of (path_types ?b) ''x.y'' = Some {''number''}" by simp
  have C: "map_of (path_types ?c) ''x.y'' = None" by simp
  have s: "sorted_list_of_set {''A'', ''B''} = [''A'', ''B'']" by simp
  have v: "summarize_schema (merge_schemas [?a, ?b, ?c])
       = \<lparr>total_paths = 3,
          paths_with_type_conflict_count = 1, paths_with_type_conflict = [''x.y''],
          paths_missing_count = 3, paths_missing_examples = [''x'', ''x.y'', ''z''],
          unique_paths_count = 1, unique_paths_examples = [''z'']\<rparr>"
    by (simp add: merge_eval summarize_schema_def type_conflict_list_def paths_missing_def
        unique_paths_def)
  from merge_three_files_conflict [OF f d A B C] v show ?thesis
    by (simp only: s FileSchema.simps) simp
qed

end
